theory Spec2Isabelle
  imports Main "HOL-Library.Word"
begin

section \<open>virtio-fs glue for FUSE\<close>

subsection \<open>Regions, faults, \<^verbatim>\<open>memcpy\<close>\<close>

text \<open>
  Source: \<^verbatim>\<open>contrib/virtiofsd/fuse_virtio.c\<close>.

  A \<^verbatim>\<open>struct iovec\<close> designates \<^verbatim>\<open>iov_len\<close> bytes of storage that start at
  \<^verbatim>\<open>iov_base\<close>. The embedding represents a region by the bytes it designates, so
  \<^verbatim>\<open>iov_len\<close> is the length of that list, and an array of regions by a list. Every
  region is its own storage: regions that overlap in memory are outside the model.
  Region lengths are \<^verbatim>\<open>size_t\<close> values; they are natural numbers here, and the one
  operation of the code that could wrap around (a \<^verbatim>\<open>size_t\<close> subtraction) is
  written out as \<open>size_t_sub\<close>.
\<close>

type_synonym byte = "8 word"
type_synonym iovec = "byte list"

abbreviation iov_len :: "iovec \<Rightarrow> nat" where
  "iov_len v \<equiv> length v"

text \<open>
  What stops the program: a failed \<^verbatim>\<open>assert\<close> (named by its condition), a
  \<^verbatim>\<open>memcpy\<close> that leaves the region it reads or writes, a null pointer that is
  dereferenced.
\<close>

datatype fault = Assertion string | OutOfBounds | NullDeref

definition size_t_sub :: "nat \<Rightarrow> nat \<Rightarrow> nat" where
  "size_t_sub a b = (if b \<le> a then a - b else (a + 2 ^ 64 - b) mod 2 ^ 64)"

text \<open>
  \<^verbatim>\<open>memcpy(dst + doff, src + soff, n)\<close> on two separate regions: the result is the
  new content of the destination region. Leaving either region is a fault.
\<close>

definition memcpy :: "byte list \<Rightarrow> nat \<Rightarrow> byte list \<Rightarrow> nat \<Rightarrow> nat \<Rightarrow> fault + byte list" where
  "memcpy dst doff src soff n =
     (if doff + n \<le> length dst \<and> soff + n \<le> length src
      then Inr (take doff dst @ take n (drop soff src) @ drop (doff + n) dst)
      else Inl OutOfBounds)"

text \<open>
  \<^verbatim>\<open>iov_length\<close> is declared outside this file. Modelled from the spec: "computes
  total reply length", the chain's "total out length": the sum of the region lengths.
\<close>

definition iov_length :: "iovec list \<Rightarrow> nat" where
  "iov_length iov = sum_list (map iov_len iov)"

subsection \<open>\<^verbatim>\<open>copy_from_iov\<close>\<close>

text \<open>
  \<^verbatim>\<open>
  void *dest = buf->mem;
  while (out_num) {
      size_t onelen = out_sg->iov_len;
      memcpy(dest, out_sg->iov_base, onelen);
      dest += onelen; out_sg++; out_num--;
  }
  \<close>
  The buffer is the list of its bytes (its capacity is the length), \<open>dest\<close> the offset
  of the write pointer from \<^verbatim>\<open>buf->mem\<close>.
\<close>

fun copy_from_iov_loop :: "byte list \<Rightarrow> nat \<Rightarrow> iovec list \<Rightarrow> fault + byte list" where
  "copy_from_iov_loop mem dest [] = Inr mem"
| "copy_from_iov_loop mem dest (sg # out_sg) =
     (let onelen = iov_len sg in
      case memcpy mem dest sg 0 onelen of
        Inl e \<Rightarrow> Inl e
      | Inr mem' \<Rightarrow> copy_from_iov_loop mem' (dest + onelen) out_sg)"

definition copy_from_iov :: "byte list \<Rightarrow> iovec list \<Rightarrow> fault + byte list" where
  "copy_from_iov mem out_sg = copy_from_iov_loop mem 0 out_sg"

subsection \<open>\<^verbatim>\<open>copy_iov\<close>\<close>

text \<open>
  The inner loop of \<^verbatim>\<open>copy_iov\<close>, for one source region \<open>s\<close>:
  \<^verbatim>\<open>
  while (src_len) {
      assert(dst_count);
      size_t dst_len = dst_iov[0].iov_len - dst_offset;
      if (dst_len > src_len) dst_len = src_len;
      memcpy(dst_iov[0].iov_base + dst_offset, src_iov[0].iov_base + src_offset, dst_len);
      src_len -= dst_len; to_copy -= dst_len;
      src_offset += dst_len; dst_offset += dst_len;
      assert(dst_offset <= dst_iov[0].iov_len);
      if (dst_offset == dst_iov[0].iov_len) { dst_offset = 0; dst_iov++; dst_count--; }
  }
  \<close>
  \<open>dst\<close> is the array from \<^verbatim>\<open>dst_iov\<close> on (\<^verbatim>\<open>dst_count\<close> is its length) and
  \<open>done\<close> the destination regions the pointer has passed, in order. The loop returns
  the variables that the outer loop reads again.
\<close>

function copy_iov_inner ::
  "iovec \<Rightarrow> nat \<Rightarrow> nat \<Rightarrow> nat \<Rightarrow> iovec list \<Rightarrow> iovec list \<Rightarrow> nat
     \<Rightarrow> fault + (nat \<times> iovec list \<times> iovec list \<times> nat)" where
  "copy_iov_inner s src_len src_offset to_copy done dst dst_offset =
     (if src_len = 0 then Inr (to_copy, done, dst, dst_offset)
      else case dst of
        [] \<Rightarrow> Inl (Assertion ''dst_count'')
      | d # ds \<Rightarrow>
          (let avail = size_t_sub (iov_len d) dst_offset;
               dst_len = (if avail > src_len then src_len else avail)
           in case memcpy d dst_offset s src_offset dst_len of
                Inl e \<Rightarrow> Inl e
              | Inr d' \<Rightarrow>
                  (let src_len' = size_t_sub src_len dst_len;
                       to_copy' = size_t_sub to_copy dst_len;
                       src_offset' = src_offset + dst_len;
                       dst_offset' = dst_offset + dst_len
                   in if \<not> dst_offset' \<le> iov_len d
                      then Inl (Assertion ''dst_offset <= dst_iov[0].iov_len'')
                      else if dst_offset' = iov_len d
                      then copy_iov_inner s src_len' src_offset' to_copy' (done @ [d']) ds 0
                      else copy_iov_inner s src_len' src_offset' to_copy' done (d' # ds)
                             dst_offset')))"
  by pat_completeness auto

termination
proof (relation "measures [\<lambda>(s, src_len, src_offset, to_copy, dn, dst, dst_offset). length dst,
                           \<lambda>(s, src_len, src_offset, to_copy, dn, dst, dst_offset). src_len]")
  show "wf (measures [\<lambda>(s, src_len, src_offset, to_copy, dn, dst, dst_offset). length dst,
                      \<lambda>(s, src_len, src_offset, to_copy, dn, dst, dst_offset). src_len])"
    by simp
qed (auto simp: memcpy_def size_t_sub_def split: if_splits)

declare copy_iov_inner.simps [simp del]

text \<open>
  The outer loop, one source region a turn:
  \<^verbatim>\<open>
  while (to_copy) {
      assert(src_count);
      size_t src_len = src_iov[0].iov_len;
      size_t src_offset = 0;
      if (src_len > to_copy) src_len = to_copy;
      ... inner loop ...
      src_iov++; src_count--;
  }
  \<close>
  The function returns nothing; the model returns the destination regions as the
  loop leaves them.
\<close>

fun copy_iov_outer ::
  "iovec list \<Rightarrow> nat \<Rightarrow> iovec list \<Rightarrow> iovec list \<Rightarrow> nat \<Rightarrow> fault + iovec list" where
  "copy_iov_outer [] to_copy done dst dst_offset =
     (if to_copy = 0 then Inr (done @ dst) else Inl (Assertion ''src_count''))"
| "copy_iov_outer (s # src) to_copy done dst dst_offset =
     (if to_copy = 0 then Inr (done @ dst)
      else (let src_len = (if iov_len s > to_copy then to_copy else iov_len s)
            in case copy_iov_inner s src_len 0 to_copy done dst dst_offset of
                 Inl e \<Rightarrow> Inl e
               | Inr (to_copy', done', dst', dst_offset') \<Rightarrow>
                   copy_iov_outer src to_copy' done' dst' dst_offset'))"

definition copy_iov :: "iovec list \<Rightarrow> iovec list \<Rightarrow> nat \<Rightarrow> fault + iovec list" where
  "copy_iov src_iov dst_iov to_copy = copy_iov_outer src_iov to_copy [] dst_iov 0"


text \<open>
  Two notions used to state what the loops do. \<open>overwrite xs p ys\<close> is \<open>xs\<close> with
  \<open>ys\<close> written over it from position \<open>p\<close>. \<open>dst_cursor_ok dst off\<close> says where
  the destination cursor of \<^verbatim>\<open>copy_iov\<close> stands between two steps: at the start of
  the current region or strictly inside it.
\<close>

definition overwrite :: "'a list \<Rightarrow> nat \<Rightarrow> 'a list \<Rightarrow> 'a list" where
  "overwrite xs p ys = take p xs @ ys @ drop (p + length ys) xs"

definition dst_cursor_ok :: "iovec list \<Rightarrow> nat \<Rightarrow> bool" where
  "dst_cursor_ok dst off = (case dst of [] \<Rightarrow> off = 0 | d # _ \<Rightarrow> off = 0 \<or> off < iov_len d)"

subsection \<open>Descriptor chains, the session, what the program does to the outside\<close>

text \<open>
  \<^verbatim>\<open>VuVirtqElement\<close> (libvhost-user): \<^verbatim>\<open>out_num\<close> and \<^verbatim>\<open>in_num\<close> are the lengths
  of the two region arrays.
\<close>

record VuVirtqElement =
  index :: nat
  out_sg :: "iovec list"
  in_sg :: "iovec list"

text \<open>
  \<^verbatim>\<open>struct fv_QueueInfo\<close>. The back pointer \<^verbatim>\<open>virtio_dev\<close> is left out: there is
  one device. \<open>qe\<close> is the pointer to the element in progress, with the element it
  points to; \<open>None\<close> is \<^verbatim>\<open>NULL\<close>.
\<close>

record fv_QueueInfo =
  thread :: nat
  qidx :: int
  kick_fd :: int
  qe :: "VuVirtqElement option"

text \<open>The field of \<^verbatim>\<open>struct fuse_chan\<close> that this file reads.\<close>

record fuse_chan =
  ch_qi :: fv_QueueInfo

text \<open>The field of \<^verbatim>\<open>struct fuse_session\<close> that decides a branch of this file.\<close>

record fuse_session =
  bufsize :: nat

text \<open>
  \<^verbatim>\<open>fuse_kernel.h\<close> is not part of this file: the sizes of the two headers and the
  reading of \<^verbatim>\<open>unique\<close> from the bytes of a \<^verbatim>\<open>struct fuse_out_header\<close> are
  parameters. \<open>fuse_kernel_abi\<close> gives the values of the Linux FUSE protocol (the
  request header is 40 bytes, as in the specification; the reply header is 16 bytes,
  \<^verbatim>\<open>unique\<close> its bytes 8 to 15, least significant first); it serves for concrete
  inputs only.
\<close>

record abi =
  sizeof_fuse_in_header :: nat
  sizeof_fuse_out_header :: nat
  out_unique :: "iovec \<Rightarrow> 64 word"

definition le64 :: "byte list \<Rightarrow> 64 word" where
  "le64 bs = foldr (\<lambda>b acc. ucast b + 256 * acc) bs 0"

definition fuse_kernel_abi :: abi where
  "fuse_kernel_abi =
     \<lparr>sizeof_fuse_in_header = 40, sizeof_fuse_out_header = 16,
      out_unique = (\<lambda>hdr. le64 (take 8 (drop 8 hdr)))\<rparr>"

text \<open>\<^verbatim>\<open>E2BIG\<close> of \<^verbatim>\<open>errno.h\<close> on Linux.\<close>

definition E2BIG :: int where
  "E2BIG = 7"

text \<open>
  Calls that leave this file, in the order they are made: \<^verbatim>\<open>malloc\<close> of the request
  buffer, \<^verbatim>\<open>copy_from_iov\<close> of an element, \<^verbatim>\<open>fuse_session_process_buf_int\<close> on the
  bytes of a request, \<^verbatim>\<open>free\<close> of an element and of the buffer, \<^verbatim>\<open>vu_queue_push\<close>
  (element index, length), \<^verbatim>\<open>vu_queue_notify\<close>.
  Output on \<^verbatim>\<open>stderr\<close> is not modelled.
\<close>

datatype event =
    Ev_malloc nat
  | Ev_copy_from_iov nat
  | Ev_process "byte list"
  | Ev_free_elem nat
  | Ev_free_mem
  | Ev_push nat nat
  | Ev_notify

subsection \<open>\<^verbatim>\<open>virtio_send_msg\<close>\<close>

text \<open>
  \<^verbatim>\<open>
  assert(count >= 1);
  assert(iov[0].iov_len >= sizeof(struct fuse_out_header));
  struct fuse_out_header *out = iov[0].iov_base;
  size_t tosend_len = iov_length(iov, count);
  assert (out->unique);
  assert(ch);
  elem = ch->qi->qe;
  ...
  size_t in_len = iov_length(in_sg, in_num);
  if (in_len < sizeof(struct fuse_out_header)) return -E2BIG;
  if (in_len < tosend_len) return -E2BIG;
  copy_iov(iov, count, in_sg, in_num, tosend_len);
  vu_queue_push(&se->virtio_dev->dev, q, elem, tosend_len);
  vu_queue_notify(&se->virtio_dev->dev, q);
  return 0;
  \<close>
  The result is what the call yields (a fault, or the returned integer) together with
  the channel, which carries the element and the memory of its regions, and the calls
  made so far.
\<close>

definition virtio_send_msg ::
  "abi \<Rightarrow> iovec list \<Rightarrow> fuse_chan option \<Rightarrow> event list
     \<Rightarrow> (fault + int) \<times> fuse_chan option \<times> event list" where
  "virtio_send_msg a iov ch tr =
     (if \<not> 1 \<le> length iov then (Inl (Assertion ''count >= 1''), ch, tr)
      else if \<not> sizeof_fuse_out_header a \<le> iov_len (iov ! 0)
      then (Inl (Assertion ''iov[0].iov_len >= sizeof(struct fuse_out_header)''), ch, tr)
      else
        (let tosend_len = iov_length iov in
         if out_unique a (iov ! 0) = 0 then (Inl (Assertion ''out->unique''), ch, tr)
         else case ch of
           None \<Rightarrow> (Inl (Assertion ''ch''), ch, tr)
         | Some c \<Rightarrow>
             (case qe (ch_qi c) of
                None \<Rightarrow> (Inl NullDeref, ch, tr)
              | Some elem \<Rightarrow>
                  (let in_len = iov_length (in_sg elem) in
                   if in_len < sizeof_fuse_out_header a then (Inr (- E2BIG), ch, tr)
                   else if in_len < tosend_len then (Inr (- E2BIG), ch, tr)
                   else case copy_iov iov (in_sg elem) tosend_len of
                     Inl f \<Rightarrow> (Inl f, ch, tr)
                   | Inr in_sg' \<Rightarrow>
                       (Inr 0,
                        Some (c\<lparr>ch_qi := (ch_qi c)\<lparr>qe := Some (elem\<lparr>in_sg := in_sg'\<rparr>)\<rparr>\<rparr>),
                        tr @ [Ev_push (index elem) tosend_len, Ev_notify])))))"

subsection \<open>\<^verbatim>\<open>fv_queue_thread\<close>\<close>

text \<open>
  The locals of the thread that outlive one turn of its loops: the request buffer
  \<^verbatim>\<open>fbuf\<close> (\<open>None\<close> is \<^verbatim>\<open>fbuf.mem == NULL\<close>; the capacity of the buffer is the
  length of the list), \<^verbatim>\<open>qi->qe\<close>, and the calls made so far.
\<close>

record worker =
  fbuf_mem :: "byte list option"
  fbuf_size :: nat
  qi_qe :: "VuVirtqElement option"
  trace :: "event list"

text \<open>
  What the C library decides: whether \<^verbatim>\<open>malloc\<close> returns \<^verbatim>\<open>NULL\<close>, the bytes found
  in fresh storage, the value found in the uninitialised \<^verbatim>\<open>fbuf.size\<close>.
\<close>

record libc =
  malloc_fails :: bool
  malloc_junk :: "nat \<Rightarrow> byte"
  stack_junk :: nat

definition malloc :: "libc \<Rightarrow> nat \<Rightarrow> byte list option" where
  "malloc lc n = (if malloc_fails lc then None else Some (map (malloc_junk lc) [0..<n]))"

text \<open>
  \<^verbatim>\<open>
  if (!fbuf.mem) {
      fbuf.mem = malloc(se->bufsize);
      assert(fbuf.mem);
      assert(se->bufsize > sizeof(struct fuse_in_header));
  }
  \<close>
\<close>

definition fbuf_alloc :: "abi \<Rightarrow> fuse_session \<Rightarrow> libc \<Rightarrow> worker \<Rightarrow> fault option \<times> worker" where
  "fbuf_alloc a se lc w =
     (case fbuf_mem w of
        Some m \<Rightarrow> (None, w)
      | None \<Rightarrow>
          (let w' = w\<lparr>fbuf_mem := malloc lc (bufsize se),
                      trace := trace w @ [Ev_malloc (bufsize se)]\<rparr>
           in if fbuf_mem w' = None then (Some (Assertion ''fbuf.mem''), w')
              else if \<not> sizeof_fuse_in_header a < bufsize se
              then (Some (Assertion ''se->bufsize > sizeof(struct fuse_in_header)''), w')
              else (None, w')))"

text \<open>
  The body of the inner loop for one element that \<^verbatim>\<open>vu_queue_pop\<close> returned:
  \<^verbatim>\<open>
  ... allocation of fbuf.mem ...
  size_t out_len = iov_length(out_sg, out_num);
  if (out_len < sizeof(struct fuse_in_header)) { ...; assert(0); }
  if (out_len > se->bufsize) { ...; assert(0); }
  copy_from_iov(&fbuf, out_num, out_sg);
  fbuf.size = out_len;
  fuse_session_process_buf_int(se, &fbuf, &ch);
  qi->qe = NULL;
  free(elem);
  \<close>
  The session processor is outside this file: its call is recorded with the bytes of
  the request it is given, and the session's \<^verbatim>\<open>bufsize\<close> is taken not to change
  during the run of the thread.
\<close>

definition fv_queue_elem ::
  "abi \<Rightarrow> fuse_session \<Rightarrow> libc \<Rightarrow> VuVirtqElement \<Rightarrow> worker \<Rightarrow> fault option \<times> worker" where
  "fv_queue_elem a se lc elem w =
     (case fbuf_alloc a se lc w of
        (Some f, w1) \<Rightarrow> (Some f, w1)
      | (None, w1) \<Rightarrow>
          (let out_len = iov_length (out_sg elem) in
           if out_len < sizeof_fuse_in_header a then (Some (Assertion ''0''), w1)
           else if out_len > bufsize se then (Some (Assertion ''0''), w1)
           else case fbuf_mem w1 of
             None \<Rightarrow> (Some NullDeref, w1)
           | Some m \<Rightarrow>
               (case copy_from_iov m (out_sg elem) of
                  Inl f \<Rightarrow> (Some f, w1)
                | Inr m' \<Rightarrow>
                    (None,
                     w1\<lparr>fbuf_mem := Some m', fbuf_size := out_len, qi_qe := None,
                        trace := trace w1 @
                          [Ev_copy_from_iov (index elem), Ev_process (take out_len m'),
                           Ev_free_elem (index elem)]\<rparr>))))"

text \<open>
  The inner \<^verbatim>\<open>while (1)\<close>: the elements that \<^verbatim>\<open>vu_queue_pop\<close> returns before it
  returns \<^verbatim>\<open>NULL\<close>.
\<close>

fun fv_queue_pop_loop ::
  "abi \<Rightarrow> fuse_session \<Rightarrow> libc \<Rightarrow> VuVirtqElement list \<Rightarrow> worker \<Rightarrow> fault option \<times> worker" where
  "fv_queue_pop_loop a se lc [] w = (None, w)"
| "fv_queue_pop_loop a se lc (elem # elems) w =
     (case fv_queue_elem a se lc elem w of
        (Some f, w') \<Rightarrow> (Some f, w')
      | (None, w') \<Rightarrow> fv_queue_pop_loop a se lc elems w')"

text \<open>
  One wake-up of the outer \<^verbatim>\<open>while (1)\<close>, as the kernel and the queue present it:
  the result of \<^verbatim>\<open>ppoll\<close>, whether \<^verbatim>\<open>errno\<close> is \<^verbatim>\<open>EINTR\<close>, whether \<^verbatim>\<open>revents\<close>
  has one of \<^verbatim>\<open>POLLERR | POLLHUP | POLLNVAL\<close> and whether it has \<^verbatim>\<open>POLLIN\<close>, whether
  \<^verbatim>\<open>eventfd_read\<close> fails, the \<^verbatim>\<open>out_bytes\<close> that \<^verbatim>\<open>vu_queue_get_avail_bytes\<close>
  reports, the elements popped.
\<close>

record kick =
  poll_res :: int
  errno_EINTR :: bool
  revents_err :: bool
  revents_in :: bool
  eventfd_read_fails :: bool
  out_bytes :: nat
  popped :: "VuVirtqElement list"

text \<open>
  How the loop is left: by \<^verbatim>\<open>break\<close>, by a fault, or not at all, the thread waiting
  in \<^verbatim>\<open>ppoll\<close> once the wake-ups are used up.
\<close>

datatype exit = Loop_left | Aborted fault | Waiting

fun fv_queue_thread_loop ::
  "abi \<Rightarrow> fuse_session \<Rightarrow> libc \<Rightarrow> kick list \<Rightarrow> worker \<Rightarrow> exit \<times> worker" where
  "fv_queue_thread_loop a se lc [] w = (Waiting, w)"
| "fv_queue_thread_loop a se lc (k # ks) w =
     (if poll_res k = - 1
      then (if errno_EINTR k then fv_queue_thread_loop a se lc ks w else (Loop_left, w))
      else if \<not> poll_res k = 1 then (Aborted (Assertion ''poll_res == 1''), w)
      else if revents_err k then (Loop_left, w)
      else if \<not> revents_in k then (Aborted (Assertion ''pf[0].revents & POLLIN''), w)
      else if eventfd_read_fails k then (Loop_left, w)
      else if out_bytes k = 0 then fv_queue_thread_loop a se lc ks w
      else case fv_queue_pop_loop a se lc (popped k) w of
        (Some f, w') \<Rightarrow> (Aborted f, w')
      | (None, w') \<Rightarrow> fv_queue_thread_loop a se lc ks w')"

text \<open>
  The thread: \<^verbatim>\<open>fbuf.mem = NULL\<close>, the loop, and after a \<^verbatim>\<open>break\<close>
  \<^verbatim>\<open>free(fbuf.mem)\<close>. \<open>qe0\<close> is the value of \<^verbatim>\<open>qi->qe\<close> when the thread starts.
\<close>

definition worker_init :: "libc \<Rightarrow> VuVirtqElement option \<Rightarrow> worker" where
  "worker_init lc qe0 = \<lparr>fbuf_mem = None, fbuf_size = stack_junk lc, qi_qe = qe0, trace = []\<rparr>"

definition fv_queue_thread ::
  "abi \<Rightarrow> fuse_session \<Rightarrow> libc \<Rightarrow> VuVirtqElement option \<Rightarrow> kick list \<Rightarrow> exit \<times> worker" where
  "fv_queue_thread a se lc qe0 ks =
     (case fv_queue_thread_loop a se lc ks (worker_init lc qe0) of
        (Loop_left, w) \<Rightarrow> (Loop_left, w\<lparr>trace := trace w @ [Ev_free_mem]\<rparr>)
      | (x, w) \<Rightarrow> (x, w))"

text \<open>Reading a trace: the sizes of the allocations and the number of requests processed.\<close>

fun malloc_sizes :: "event list \<Rightarrow> nat list" where
  "malloc_sizes [] = []"
| "malloc_sizes (Ev_malloc n # es) = n # malloc_sizes es"
| "malloc_sizes (e # es) = malloc_sizes es"

fun processed :: "event list \<Rightarrow> nat" where
  "processed [] = 0"
| "processed (Ev_process b # es) = Suc (processed es)"
| "processed (e # es) = processed es"



subsection \<open>\<^verbatim>\<open>fv_queue_set_started\<close>\<close>

text \<open>
  \<^verbatim>\<open>struct fv_VuDev\<close>: \<open>nqueues\<close>, the table \<open>qi\<close> of pointers to queue records
  (\<open>None\<close> is \<^verbatim>\<open>NULL\<close>; the list is the storage that \<^verbatim>\<open>vud->qi\<close> points to), and
  beside it the records that \<^verbatim>\<open>calloc\<close> has handed out, a pointer being the position
  of its record in \<open>qinfo\<close>; \<open>vq_kick_fd\<close> is \<^verbatim>\<open>dev.vq[i].kick_fd\<close>; \<open>started\<close>
  lists the threads created (thread handle, pointer to the record).
\<close>

record fv_VuDev =
  nqueues :: nat
  qi :: "nat option list"
  qinfo :: "fv_QueueInfo list"
  vq_kick_fd :: "nat \<Rightarrow> int"
  started :: "(nat \<times> nat) list"

text \<open>
  What the C library decides here: whether \<^verbatim>\<open>realloc\<close> and \<^verbatim>\<open>calloc\<close> return
  \<^verbatim>\<open>NULL\<close>, the pointer value found in table entries that \<^verbatim>\<open>realloc\<close> added, the
  handle of the thread that \<^verbatim>\<open>pthread_create\<close> starts (\<open>None\<close>: it fails).
\<close>

record sys =
  realloc_fails :: bool
  realloc_junk :: "nat option"
  calloc_fails :: bool
  pthread_create_result :: "nat option"

text \<open>
  \<^verbatim>\<open>
  vud->qi = realloc(vud->qi, (qidx + 1) * sizeof(vud->qi[0]));
  assert(vud->qi);
  memset(vud->qi + vud->nqueues, 0, sizeof(vud->qi[0]) * (1 + (qidx - vud->nqueues)));
  vud->nqueues = qidx + 1;
  \<close>
  \<^verbatim>\<open>realloc\<close> keeps the entries that fit and adds entries of unspecified content;
  \<^verbatim>\<open>memset\<close> writes \<open>cnt\<close> null pointers from position \<open>from\<close> and must stay
  inside the table.
\<close>

definition realloc_table :: "sys \<Rightarrow> nat option list \<Rightarrow> nat \<Rightarrow> nat option list" where
  "realloc_table sy tab n = take n tab @ replicate (n - length tab) (realloc_junk sy)"

definition memset_table :: "nat option list \<Rightarrow> nat \<Rightarrow> nat \<Rightarrow> fault + nat option list" where
  "memset_table tab from cnt =
     (if from + cnt \<le> length tab
      then Inr (take from tab @ replicate cnt None @ drop (from + cnt) tab)
      else Inl OutOfBounds)"

definition grow_table :: "sys \<Rightarrow> nat \<Rightarrow> fv_VuDev \<Rightarrow> fault + fv_VuDev" where
  "grow_table sy i vud =
     (if realloc_fails sy then Inl (Assertion ''vud->qi'')
      else case memset_table (realloc_table sy (qi vud) (i + 1)) (nqueues vud)
                  (1 + size_t_sub i (nqueues vud)) of
        Inl f \<Rightarrow> Inl f
      | Inr tab \<Rightarrow> Inr (vud\<lparr>qi := tab, nqueues := i + 1\<rparr>))"

text \<open>
  \<^verbatim>\<open>
  assert(qidx>=0);
  if (qidx == 0) return;
  if (started) {
      if (qidx >= vud->nqueues) { ... grow the table ... }
      if (!vud->qi[qidx]) {
          vud->qi[qidx] = calloc(sizeof(struct fv_QueueInfo), 1);
          vud->qi[qidx]->virtio_dev = vud;
          vud->qi[qidx]->qidx = qidx;
          assert(vud->qi[qidx]);
      } else {
          assert(vud->qi[qidx]->kick_fd == -1);
      }
      ourqi = vud->qi[qidx];
      ourqi->kick_fd = dev->vq[qidx].kick_fd;
      if (pthread_create(&ourqi->thread, NULL, fv_queue_thread, ourqi)) { ...; assert(0); }
  } else {
      assert(qidx < vud->nqueues);
      ourqi = vud->qi[qidx];
      ourqi->kick_fd = -1;
  }
  \<close>
  \<open>qx\<close> is the parameter \<^verbatim>\<open>qidx\<close>. A table entry read outside the table, or a
  pointer that is not the position of a record, is a fault.
\<close>

definition table_entry :: "fv_VuDev \<Rightarrow> nat \<Rightarrow> fault + nat option" where
  "table_entry vud i = (if i < length (qi vud) then Inr (qi vud ! i) else Inl OutOfBounds)"

definition queue_record :: "sys \<Rightarrow> int \<Rightarrow> fv_VuDev \<Rightarrow> fault + (nat \<times> fv_VuDev)" where
  "queue_record sy qx vud =
     (case table_entry vud (nat qx) of
        Inl f \<Rightarrow> Inl f
      | Inr None \<Rightarrow>
          (if calloc_fails sy then Inl NullDeref
           else Inr (length (qinfo vud),
                     vud\<lparr>qi := (qi vud)[nat qx := Some (length (qinfo vud))],
                         qinfo := qinfo vud @ [\<lparr>thread = 0, qidx = qx, kick_fd = 0, qe = None\<rparr>]\<rparr>))
      | Inr (Some p) \<Rightarrow>
          (if \<not> p < length (qinfo vud) then Inl OutOfBounds
           else if \<not> kick_fd (qinfo vud ! p) = - 1
           then Inl (Assertion ''vud->qi[qidx]->kick_fd == -1'')
           else Inr (p, vud)))"

definition fv_queue_set_started :: "sys \<Rightarrow> int \<Rightarrow> bool \<Rightarrow> fv_VuDev \<Rightarrow> fault + fv_VuDev" where
  "fv_queue_set_started sy qx strt vud =
     (if \<not> 0 \<le> qx then Inl (Assertion ''qidx>=0'')
      else if qx = 0 then Inr vud
      else if strt then
        (case (if nat qx \<ge> nqueues vud then grow_table sy (nat qx) vud else Inr vud) of
           Inl f \<Rightarrow> Inl f
         | Inr vud1 \<Rightarrow>
             (case queue_record sy qx vud1 of
                Inl f \<Rightarrow> Inl f
              | Inr (p, vud2) \<Rightarrow>
                  (let ourqi = (qinfo vud2 ! p)\<lparr>kick_fd := vq_kick_fd vud2 (nat qx)\<rparr> in
                   case pthread_create_result sy of
                     None \<Rightarrow> Inl (Assertion ''0'')
                   | Some t \<Rightarrow>
                       Inr (vud2\<lparr>qinfo := (qinfo vud2)[p := ourqi\<lparr>thread := t\<rparr>],
                                 started := started vud2 @ [(t, p)]\<rparr>))))
      else
        (if \<not> nat qx < nqueues vud then Inl (Assertion ''qidx < vud->nqueues'')
         else case table_entry vud (nat qx) of
           Inl f \<Rightarrow> Inl f
         | Inr None \<Rightarrow> Inl NullDeref
         | Inr (Some p) \<Rightarrow>
             (if \<not> p < length (qinfo vud) then Inl OutOfBounds
              else Inr (vud\<lparr>qinfo := (qinfo vud)[p := (qinfo vud ! p)\<lparr>kick_fd := - 1\<rparr>]\<rparr>))))"

text \<open>
  The states the table is in between two calls: \<open>nqueues\<close> is the number of entries,
  an entry points to a record, two entries point to different records.
\<close>

definition table_ok :: "fv_VuDev \<Rightarrow> bool" where
  "table_ok vud =
     (length (qi vud) = nqueues vud \<and>
      (\<forall>j < length (qi vud). case qi vud ! j of None \<Rightarrow> True | Some p \<Rightarrow> p < length (qinfo vud)))"

subsection \<open>Concrete inputs\<close>

text \<open>
  Two reply headers of 16 bytes, with \<^verbatim>\<open>unique\<close> 0 and 1, and a channel whose queue
  record has an element in progress with the given regions for the reply.
\<close>

definition hdr_zero :: iovec where
  "hdr_zero = [0, 0, 0, 0, 0, 0, 0, 0, 0, 0, 0, 0, 0, 0, 0, 0]"

definition hdr_one :: iovec where
  "hdr_one = [0, 0, 0, 0, 0, 0, 0, 0, 1, 0, 0, 0, 0, 0, 0, 0]"

definition elem_with :: "iovec list \<Rightarrow> VuVirtqElement" where
  "elem_with ins = \<lparr>index = 0, out_sg = [], in_sg = ins\<rparr>"

definition chan_with :: "iovec list \<Rightarrow> fuse_chan" where
  "chan_with ins = \<lparr>ch_qi = \<lparr>thread = 1, qidx = 1, kick_fd = 5, qe = Some (elem_with ins)\<rparr>\<rparr>"

text \<open>
  A session with a buffer of 64 bytes, a C library whose \<^verbatim>\<open>malloc\<close> succeeds, a
  request element with one out-region of \<open>n\<close> bytes, a wake-up that presents the
  given elements, and a run of the loop of the thread over two wake-ups and three
  requests.
\<close>

definition se64 :: fuse_session where
  "se64 = \<lparr>bufsize = 64\<rparr>"

definition libc_ok :: libc where
  "libc_ok = \<lparr>malloc_fails = False, malloc_junk = (\<lambda>i. 0), stack_junk = 0\<rparr>"

definition req :: "nat \<Rightarrow> nat \<Rightarrow> VuVirtqElement" where
  "req i n = \<lparr>index = i, out_sg = [replicate n 1], in_sg = []\<rparr>"



text \<open>
  A C library and thread library that succeed, and a device on which queue 1 has
  been started: its record, the first one handed out, has thread handle 41 and kick
  handle 7. \<open>vud0\<close> is the device before any queue is started: the table is empty.
\<close>

definition sys_ok :: sys where
  "sys_ok = \<lparr>realloc_fails = False, realloc_junk = Some 99, calloc_fails = False,
             pthread_create_result = Some 42\<rparr>"

definition vud1 :: fv_VuDev where
  "vud1 = \<lparr>nqueues = 2, qi = [None, Some 0],
           qinfo = [\<lparr>thread = 41, qidx = 1, kick_fd = 7, qe = None\<rparr>],
           vq_kick_fd = (\<lambda>i. 10 + int i), started = [(41, 0)]\<rparr>"

definition vud0 :: fv_VuDev where
  "vud0 = \<lparr>nqueues = 0, qi = [], qinfo = [], vq_kick_fd = (\<lambda>i. 10 + int i), started = []\<rparr>"

section \<open>Properties\<close>

subsection \<open>Overwriting a list\<close>

lemma length_overwrite: "p + length ys \<le> length xs \<Longrightarrow> length (overwrite xs p ys) = length xs"
  by (simp add: overwrite_def)

lemma overwrite_overwrite:
  "p + length ys \<le> length xs \<Longrightarrow>
   overwrite (overwrite xs p ys) (p + length ys) zs = overwrite xs p (ys @ zs)"
  by (simp add: overwrite_def ac_simps)

lemma overwrite_append_left:
  "overwrite (as @ xs) (length as + p) ys = as @ overwrite xs p ys"
  by (simp add: overwrite_def)

subsection \<open>The loops of \<^verbatim>\<open>copy_iov\<close>\<close>

lemma copy_iov_inner_finish:
  assumes "src_len \<noteq> 0" "dst_offset + src_len < iov_len d" "src_offset + src_len \<le> iov_len s"
  shows "copy_iov_inner s src_len src_offset to_copy dn (d # ds) dst_offset =
         Inr (size_t_sub to_copy src_len, dn, overwrite d dst_offset (take src_len (drop src_offset s)) # ds,
              dst_offset + src_len)"
proof -
  have a: "size_t_sub (iov_len d) dst_offset = iov_len d - dst_offset"
    using assms by (simp add: size_t_sub_def)
  have c: "src_len < iov_len d - dst_offset" using assms by arith
  have m: "memcpy d dst_offset s src_offset src_len =
           Inr (overwrite d dst_offset (take src_len (drop src_offset s)))"
    using assms by (simp add: memcpy_def overwrite_def)
  have l: "iov_len (overwrite d dst_offset (take src_len (drop src_offset s))) = iov_len d"
    using assms by (simp add: overwrite_def)
  have e: "dst_offset + src_len \<le> iov_len d" "dst_offset + src_len \<noteq> iov_len d"
    using assms by arith+
  have z: "size_t_sub src_len src_len = 0" by (simp add: size_t_sub_def)
  have b: "copy_iov_inner s 0 (src_offset + src_len) (size_t_sub to_copy src_len) dn
             (overwrite d dst_offset (take src_len (drop src_offset s)) # ds) (dst_offset + src_len)
           = Inr (size_t_sub to_copy src_len, dn, overwrite d dst_offset (take src_len (drop src_offset s)) # ds,
              dst_offset + src_len)"
    by (subst copy_iov_inner.simps) simp
  show ?thesis
    by (subst copy_iov_inner.simps) (simp add: Let_def a c m e z b assms(1))
qed

lemma copy_iov_inner_advance:
  assumes "src_len \<noteq> 0" "dst_offset \<le> iov_len d" "iov_len d \<le> dst_offset + src_len"
     "src_offset + src_len \<le> iov_len s"
  shows "copy_iov_inner s src_len src_offset to_copy dn (d # ds) dst_offset =
         copy_iov_inner s (src_len - (iov_len d - dst_offset)) (src_offset + (iov_len d - dst_offset))
           (size_t_sub to_copy (iov_len d - dst_offset))
           (dn @ [overwrite d dst_offset (take (iov_len d - dst_offset) (drop src_offset s))]) ds 0"
proof -
  let ?k = "iov_len d - dst_offset"
  have a: "size_t_sub (iov_len d) dst_offset = ?k"
    using assms by (simp add: size_t_sub_def)
  have c: "(if src_len < ?k then src_len else ?k) = ?k" using assms by simp
  have m: "memcpy d dst_offset s src_offset ?k =
           Inr (overwrite d dst_offset (take ?k (drop src_offset s)))"
    using assms by (simp add: memcpy_def overwrite_def)
  have e: "dst_offset + ?k = iov_len d"
    using assms by arith
  have z: "size_t_sub src_len ?k = src_len - ?k" using assms by (simp add: size_t_sub_def)
  show ?thesis
    by (subst copy_iov_inner.simps) (simp add: Let_def a c m e z assms(1))
qed


lemma overwrite_Nil [simp]: "overwrite xs p [] = xs"
  by (simp add: overwrite_def)

lemma overwrite_append_right:
  "p + length ys \<le> length xs \<Longrightarrow> overwrite (xs @ bs) p ys = overwrite xs p ys @ bs"
  by (simp add: overwrite_def)

lemma iov_length_Cons [simp]: "iov_length (d # ds) = iov_len d + iov_length ds"
  by (simp add: iov_length_def)

lemma iov_length_Nil [simp]: "iov_length [] = 0"
  by (simp add: iov_length_def)

lemma copy_iov_inner_correct:
  assumes "dst_cursor_ok dst off" "so + n \<le> iov_len s" "off + n \<le> iov_length dst" "n \<le> tc"
  shows "\<exists>dn' dst' off'.
           copy_iov_inner s n so tc dn dst off = Inr (tc - n, dn', dst', off') \<and>
           dst_cursor_ok dst' off' \<and>
           map iov_len (dn' @ dst') = map iov_len (dn @ dst) \<and>
           concat (dn' @ dst') =
             overwrite (concat (dn @ dst)) (length (concat dn) + off) (take n (drop so s)) \<and>
           length (concat dn') + off' = length (concat dn) + off + n"
  using assms
proof (induction dst arbitrary: n so tc dn off)
  case Nil
  then have "n = 0" "off = 0" by (simp_all add: dst_cursor_ok_def)
  then show ?case
    by (subst copy_iov_inner.simps) (simp add: dst_cursor_ok_def)
next
  case (Cons d ds)
  show ?case
  proof (cases "n = 0")
    case True
    then show ?thesis using Cons.prems(1)
      by (subst copy_iov_inner.simps) simp
  next
    case n0: False
    have offd: "off \<le> iov_len d" using Cons.prems(1) by (auto simp: dst_cursor_ok_def)
    show ?thesis
    proof (cases "off + n < iov_len d")
      case True
      let ?d' = "overwrite d off (take n (drop so s))"
      have len: "length (take n (drop so s)) = n" using Cons.prems(2) by simp
      have r: "copy_iov_inner s n so tc dn (d # ds) off = Inr (tc - n, dn, ?d' # ds, off + n)"
        using copy_iov_inner_finish [OF n0 True Cons.prems(2), where to_copy = tc and dn = dn and ds = ds] Cons.prems(4)
        by (simp add: size_t_sub_def)
      have l: "iov_len ?d' = iov_len d" using True len by (simp add: length_overwrite)
      have c: "concat (dn @ ?d' # ds) =
               overwrite (concat (dn @ d # ds)) (length (concat dn) + off) (take n (drop so s))"
        using True len by (simp add: overwrite_append_left overwrite_append_right)
      show ?thesis using r l c True by (simp add: dst_cursor_ok_def)
    next
      case False
      let ?k = "iov_len d - off"
      let ?d' = "overwrite d off (take ?k (drop so s))"
      have kn: "?k \<le> n" using False by arith
      have lenk: "length (take ?k (drop so s)) = ?k" using Cons.prems(2) kn by simp
      have l: "iov_len ?d' = iov_len d" using offd lenk by (simp add: length_overwrite)
      have adv: "copy_iov_inner s n so tc dn (d # ds) off =
                 copy_iov_inner s (n - ?k) (so + ?k) (tc - ?k) (dn @ [?d']) ds 0"
        using copy_iov_inner_advance [OF n0 offd _ Cons.prems(2), where to_copy = tc and dn = dn and ds = ds] False Cons.prems(4) kn
        by (simp add: size_t_sub_def)
      have "dst_cursor_ok ds 0" by (simp add: dst_cursor_ok_def split: list.split)
      moreover have "so + ?k + (n - ?k) \<le> iov_len s" using Cons.prems(2) kn by arith
      moreover have "0 + (n - ?k) \<le> iov_length ds" using Cons.prems(3) offd by simp
      moreover have "n - ?k \<le> tc - ?k" using Cons.prems(4) by arith
      ultimately obtain dn' dst' off' where
        ih: "copy_iov_inner s (n - ?k) (so + ?k) (tc - ?k) (dn @ [?d']) ds 0 =
               Inr (tc - ?k - (n - ?k), dn', dst', off')"
            "dst_cursor_ok dst' off'"
            "map iov_len (dn' @ dst') = map iov_len ((dn @ [?d']) @ ds)"
            "concat (dn' @ dst') =
               overwrite (concat ((dn @ [?d']) @ ds)) (length (concat (dn @ [?d'])) + 0)
                 (take (n - ?k) (drop (so + ?k) s))"
            "length (concat dn') + off' = length (concat (dn @ [?d'])) + 0 + (n - ?k)"
        using Cons.IH [of 0 "so + ?k" "n - ?k" "tc - ?k" "dn @ [?d']"] by blast
      have t: "tc - ?k - (n - ?k) = tc - n" using kn Cons.prems(4) by arith
      have sp: "take ?k (drop so s) @ take (n - ?k) (drop (so + ?k) s) = take n (drop so s)"
        using kn take_add [of ?k "n - ?k" "drop so s"] by (simp add: add.commute)
      have flat1: "concat ((dn @ [?d']) @ ds) =
                   overwrite (concat (dn @ d # ds)) (length (concat dn) + off) (take ?k (drop so s))"
        using offd lenk by (simp add: overwrite_append_left overwrite_append_right)
      have pos: "length (concat (dn @ [?d'])) + 0 =
                 (length (concat dn) + off) + length (take ?k (drop so s))"
        using l lenk offd by simp
      have fits: "(length (concat dn) + off) + length (take ?k (drop so s)) \<le> length (concat (dn @ d # ds))"
        using lenk offd by simp
      have c: "concat (dn' @ dst') =
               overwrite (concat (dn @ d # ds)) (length (concat dn) + off) (take n (drop so s))"
        unfolding ih(4) flat1 pos using overwrite_overwrite [OF fits] sp by simp
      have m: "map iov_len (dn' @ dst') = map iov_len (dn @ d # ds)"
        using ih(3) l by simp
      have p: "length (concat dn') + off' = length (concat dn) + off + n"
        using ih(5) l kn offd by simp
      show ?thesis using adv ih(1) ih(2) t c m p by simp
    qed
  qed
qed


lemma iov_length_concat: "iov_length xs = length (concat xs)"
  by (simp add: iov_length_def length_concat)

lemma copy_iov_outer_correct:
  assumes "dst_cursor_ok dst off" "tc \<le> iov_length src" "off + tc \<le> iov_length dst"
  shows "\<exists>r. copy_iov_outer src tc dn dst off = Inr r \<and>
             map iov_len r = map iov_len (dn @ dst) \<and>
             concat r = overwrite (concat (dn @ dst)) (length (concat dn) + off)
                          (take tc (concat src))"
  using assms
proof (induction src arbitrary: tc dn dst off)
  case Nil
  then show ?case by simp
next
  case (Cons s src)
  show ?case
  proof (cases "tc = 0")
    case True
    then show ?thesis by simp
  next
    case False
    let ?n = "if iov_len s > tc then tc else iov_len s"
    let ?p = "length (concat dn) + off"
    have n1: "0 + ?n \<le> iov_len s" by simp
    have n2: "off + ?n \<le> iov_length dst" using Cons.prems(3) by simp
    have n3: "?n \<le> tc" by simp
    obtain dn' dst' off' where
      inner: "copy_iov_inner s ?n 0 tc dn dst off = Inr (tc - ?n, dn', dst', off')"
        "dst_cursor_ok dst' off'"
        "map iov_len (dn' @ dst') = map iov_len (dn @ dst)"
        "concat (dn' @ dst') = overwrite (concat (dn @ dst)) ?p (take ?n (drop 0 s))"
        "length (concat dn') + off' = ?p + ?n"
      using copy_iov_inner_correct [OF Cons.prems(1) n1 n2 n3, of dn] by blast
    have tot: "length (concat (dn' @ dst')) = length (concat (dn @ dst))"
      using arg_cong [OF inner(3), of sum_list] by (simp add: length_concat)
    have a2: "tc - ?n \<le> iov_length src" using Cons.prems(2) by auto
    have a3: "off' + (tc - ?n) \<le> iov_length dst'"
      using tot inner(5) Cons.prems(3) by (simp add: iov_length_concat)
    obtain r where
      ih: "copy_iov_outer src (tc - ?n) dn' dst' off' = Inr r"
        "map iov_len r = map iov_len (dn' @ dst')"
        "concat r = overwrite (concat (dn' @ dst')) (length (concat dn') + off')
                      (take (tc - ?n) (concat src))"
      using Cons.IH [OF inner(2) a2 a3, of dn'] by blast
    have len: "length (take ?n s) = ?n" by simp
    have fits: "?p + length (take ?n s) \<le> length (concat (dn @ dst))"
      using n2 by (simp add: iov_length_concat)
    have sp: "take ?n s @ take (tc - ?n) (concat src) = take tc (concat (s # src))"
      by simp
    have c: "concat r = overwrite (concat (dn @ dst)) ?p (take tc (concat (s # src)))"
      using ih(3) inner(4) inner(5) overwrite_overwrite [OF fits, of "take (tc - ?n) (concat src)"] sp len
      by simp
    have run: "copy_iov_outer (s # src) tc dn dst off = Inr r"
      using False inner(1) ih(1) by (simp add: Let_def)
    show ?thesis using run ih(2) inner(3) c by simp
  qed
qed

lemma copy_iov_result:
  assumes "L \<le> iov_length src" "L \<le> iov_length dst"
  shows "\<exists>r. copy_iov src dst L = Inr r \<and>
             concat r = take L (concat src) @ drop L (concat dst) \<and>
             map iov_len r = map iov_len dst"
proof -
  have ok: "dst_cursor_ok dst 0" by (simp add: dst_cursor_ok_def split: list.split)
  obtain r where r: "copy_iov_outer src L [] dst 0 = Inr r"
      "map iov_len r = map iov_len ([] @ dst)"
      "concat r = overwrite (concat ([] @ dst)) (length (concat ([] :: iovec list)) + 0)
                    (take L (concat src))"
    using copy_iov_outer_correct [OF ok assms(1), of "[]"] assms(2) by auto
  have len: "length (take L (concat src)) = L" using assms(1) by (simp add: iov_length_concat)
  have "concat r = take L (concat src) @ drop L (concat dst)"
    using r(3) len by (simp add: overwrite_def)
  then show ?thesis using r(1) r(2) by (simp add: copy_iov_def)
qed

text \<open>
  C1. Whenever the source regions hold at least \<open>L\<close> bytes and the destination
  regions have room for at least \<open>L\<close> bytes, \<^verbatim>\<open>copy_iov\<close> with \<^verbatim>\<open>to_copy = L\<close>
  runs to its end, and afterwards the first \<open>L\<close> bytes of the flattened destination
  are the first \<open>L\<close> bytes of the flattened source, however the bytes are divided
  into regions on either side. The rest of the destination and the lengths of its
  regions are as before.
\<close>

theorem copy_iov_shape_independent:
  assumes "L \<le> iov_length src" "L \<le> iov_length dst"
  shows "\<exists>r. copy_iov src dst L = Inr r \<and>
             take L (concat r) = take L (concat src) \<and>
             drop L (concat r) = drop L (concat dst) \<and>
             map iov_len r = map iov_len dst"
proof -
  obtain r where r: "copy_iov src dst L = Inr r"
      "concat r = take L (concat src) @ drop L (concat dst)"
      "map iov_len r = map iov_len dst"
    using copy_iov_result [OF assms] by blast
  have "length (take L (concat src)) = L" using assms(1) by (simp add: iov_length_concat)
  then show ?thesis using r by simp
qed

theorem copy_iov_shape_independent_witness:
  "5 \<le> iov_length [[1, 2, 3], [], [4, 5]] \<and> 5 \<le> iov_length [[0], [], [0, 0, 0], [9, 9]] \<and>
   (\<exists>r. copy_iov [[1, 2, 3], [], [4, 5]] [[0], [], [0, 0, 0], [9, 9]] 5 = Inr r \<and>
        take 5 (concat r) = take 5 (concat [[1, 2, 3], [], [4, 5]]) \<and>
        drop 5 (concat r) = drop 5 (concat [[0], [], [0, 0, 0], [9, 9]]) \<and>
        map iov_len r = map iov_len [[0], [], [0, 0, 0], [9, 9]])"
proof -
  have h1: "5 \<le> iov_length [[1, 2, 3], [], [4, 5 :: byte]]" by (simp add: iov_length_def)
  have h2: "5 \<le> iov_length [[0], [], [0, 0, 0], [9, 9 :: byte]]" by (simp add: iov_length_def)
  show ?thesis using h1 h2 copy_iov_shape_independent [OF h1 h2] by blast
qed


text \<open>
  C10. Whenever the source regions hold at least \<^verbatim>\<open>to_copy\<close> bytes and the
  destination regions have room for at least \<^verbatim>\<open>to_copy\<close> bytes, regions of length
  zero allowed on both sides, \<^verbatim>\<open>copy_iov\<close> comes to its end (the function is total,
  its loops are shown to terminate where they are defined) and it ends normally: no
  assertion on \<^verbatim>\<open>src_count\<close>, \<^verbatim>\<open>dst_count\<close> or \<^verbatim>\<open>dst_offset\<close> fails and no
  \<^verbatim>\<open>memcpy\<close> leaves the region it writes.
\<close>

theorem copy_iov_safe:
  assumes "to_copy \<le> iov_length src_iov" "to_copy \<le> iov_length dst_iov"
  shows "(\<exists>r. copy_iov src_iov dst_iov to_copy = Inr r) \<and>
         copy_iov src_iov dst_iov to_copy \<noteq> Inl (Assertion ''src_count'') \<and>
         copy_iov src_iov dst_iov to_copy \<noteq> Inl (Assertion ''dst_count'') \<and>
         copy_iov src_iov dst_iov to_copy \<noteq> Inl (Assertion ''dst_offset <= dst_iov[0].iov_len'') \<and>
         copy_iov src_iov dst_iov to_copy \<noteq> Inl OutOfBounds"
proof -
  have ok: "dst_cursor_ok dst_iov 0" by (simp add: dst_cursor_ok_def split: list.split)
  obtain r where "copy_iov_outer src_iov to_copy [] dst_iov 0 = Inr r"
    using copy_iov_outer_correct [OF ok assms(1), of "[]"] assms(2) by auto
  then show ?thesis by (simp add: copy_iov_def)
qed

theorem copy_iov_safe_witness:
  "2 \<le> iov_length [[], [7], [], [8, 9]] \<and> 2 \<le> iov_length [[], [0, 0], []] \<and>
   (\<exists>r. copy_iov [[], [7], [], [8, 9]] [[], [0, 0], []] 2 = Inr r) \<and>
   copy_iov [[], [7], [], [8, 9]] [[], [0, 0], []] 2 \<noteq> Inl OutOfBounds"
proof -
  have h1: "2 \<le> iov_length [[], [7], [], [8, 9 :: byte]]" by (simp add: iov_length_def)
  have h2: "2 \<le> iov_length [[], [0, 0 :: byte], []]" by (simp add: iov_length_def)
  show ?thesis using h1 h2 copy_iov_safe [OF h1 h2] by blast
qed

subsection \<open>\<^verbatim>\<open>copy_from_iov\<close>\<close>

lemma memcpy_whole:
  "dest + length s \<le> length m \<Longrightarrow> memcpy m dest s 0 (length s) = Inr (overwrite m dest s)"
  by (simp add: memcpy_def overwrite_def)

lemma copy_from_iov_loop_correct:
  "dest + iov_length sg \<le> length m \<Longrightarrow>
   copy_from_iov_loop m dest sg = Inr (overwrite m dest (concat sg))"
proof (induction sg arbitrary: m dest)
  case Nil
  then show ?case by simp
next
  case (Cons s sg)
  have fits: "dest + length s \<le> length m" using Cons.prems by simp
  have "(dest + length s) + iov_length sg \<le> length (overwrite m dest s)"
    using Cons.prems fits by (simp add: length_overwrite)
  from Cons.IH [OF this]
  have "copy_from_iov_loop (overwrite m dest s) (dest + length s) sg =
        Inr (overwrite m dest (s @ concat sg))"
    using overwrite_overwrite [OF fits] by simp
  then show ?case using memcpy_whole [OF fits] by (simp add: Let_def)
qed

text \<open>
  C5. Whenever the lengths of the out-regions sum to at most the capacity of the
  buffer, \<^verbatim>\<open>copy_from_iov\<close> ends normally and the first bytes of the buffer, as many
  as the regions hold, are the bytes of the regions one after the other in the order
  of the regions. The rest of the buffer and its capacity are as before.
\<close>

theorem copy_from_iov_flattens:
  assumes "iov_length sg \<le> length m"
  shows "\<exists>m'. copy_from_iov m sg = Inr m' \<and>
              take (iov_length sg) m' = concat sg \<and>
              drop (iov_length sg) m' = drop (iov_length sg) m \<and>
              length m' = length m"
proof -
  have "copy_from_iov m sg = Inr (overwrite m 0 (concat sg))"
    using copy_from_iov_loop_correct [of 0 sg m] assms by (simp add: copy_from_iov_def)
  then show ?thesis using assms by (simp add: overwrite_def iov_length_concat)
qed

theorem copy_from_iov_flattens_witness:
  "iov_length [[1, 2, 3], [], [4, 5]] \<le> length [0, 0, 0, 0, 0, 6 :: byte] \<and>
   (\<exists>m'. copy_from_iov [0, 0, 0, 0, 0, 6] [[1, 2, 3], [], [4, 5]] = Inr m' \<and>
         take (iov_length [[1, 2, 3], [], [4, 5 :: byte]]) m' = concat [[1, 2, 3], [], [4, 5]] \<and>
         drop (iov_length [[1, 2, 3], [], [4, 5 :: byte]]) m' =
           drop (iov_length [[1, 2, 3], [], [4, 5 :: byte]]) [0, 0, 0, 0, 0, 6] \<and>
         length m' = length [0, 0, 0, 0, 0, 6 :: byte])"
proof -
  have h: "iov_length [[1, 2, 3], [], [4, 5 :: byte]] \<le> length [0, 0, 0, 0, 0, 6 :: byte]"
    by (simp add: iov_length_def)
  show ?thesis using h copy_from_iov_flattens [OF h] by blast
qed


subsection \<open>\<^verbatim>\<open>virtio_send_msg\<close>\<close>

lemma unique_hdr_zero: "out_unique fuse_kernel_abi hdr_zero = 0"
  by (simp add: fuse_kernel_abi_def hdr_zero_def le64_def)

lemma unique_hdr_one: "out_unique fuse_kernel_abi hdr_one = 1"
  by (simp add: fuse_kernel_abi_def hdr_one_def le64_def)

lemma sizeof_hdr_zero: "sizeof_fuse_out_header fuse_kernel_abi \<le> iov_len hdr_zero"
  by (simp add: fuse_kernel_abi_def hdr_zero_def)

lemma sizeof_hdr_one: "sizeof_fuse_out_header fuse_kernel_abi \<le> iov_len hdr_one"
  by (simp add: fuse_kernel_abi_def hdr_one_def)

lemma qe_chan_with: "qe (ch_qi (chan_with ins)) = Some (elem_with ins)"
  by (simp add: chan_with_def)

text \<open>
  C4. A reply whose first region holds the reply header with \<^verbatim>\<open>unique\<close> equal to 0
  stops \<^verbatim>\<open>virtio_send_msg\<close> at \<^verbatim>\<open>assert (out->unique)\<close>: the call ends there, for
  every channel, before any byte is copied into the in-regions of the element and
  before anything is pushed or notified: the element and the list of calls made are
  as they were.
\<close>

theorem virtio_send_msg_zero_unique:
  assumes "1 \<le> length iov" "sizeof_fuse_out_header a \<le> iov_len (iov ! 0)"
    "out_unique a (iov ! 0) = 0"
  shows "virtio_send_msg a iov ch tr = (Inl (Assertion ''out->unique''), ch, tr)"
  using assms by (simp add: virtio_send_msg_def)

theorem virtio_send_msg_zero_unique_witness:
  "1 \<le> length [hdr_zero] \<and>
   sizeof_fuse_out_header fuse_kernel_abi \<le> iov_len ([hdr_zero] ! 0) \<and>
   out_unique fuse_kernel_abi ([hdr_zero] ! 0) = 0 \<and>
   virtio_send_msg fuse_kernel_abi [hdr_zero] (Some (chan_with [[0, 0]])) [] =
     (Inl (Assertion ''out->unique''), Some (chan_with [[0, 0]]), [])"
proof -
  have h1: "1 \<le> length [hdr_zero]" by simp
  have h2: "sizeof_fuse_out_header fuse_kernel_abi \<le> iov_len ([hdr_zero] ! 0)"
    using sizeof_hdr_zero by simp
  have h3: "out_unique fuse_kernel_abi ([hdr_zero] ! 0) = 0"
    using unique_hdr_zero by simp
  show ?thesis using h1 h2 h3 virtio_send_msg_zero_unique [OF h1 h2 h3] by simp
qed

text \<open>
  C3, as stated, at a concrete input. The reply is one region that holds a reply
  header with \<^verbatim>\<open>unique\<close> 0; the element in progress reserves 2 bytes, fewer than
  the reply header. The call does not return \<^verbatim>\<open>-E2BIG\<close>: it has stopped at the
  assertion on \<^verbatim>\<open>unique\<close>, which comes before the two capacity checks.
\<close>

theorem virtio_send_msg_too_large_counterexample:
  "sizeof_fuse_out_header fuse_kernel_abi \<le> iov_len ([hdr_zero] ! 0) \<and>
   iov_length (in_sg (elem_with [[0, 0]])) < sizeof_fuse_out_header fuse_kernel_abi \<and>
   qe (ch_qi (chan_with [[0, 0]])) = Some (elem_with [[0, 0]]) \<and>
   fst (virtio_send_msg fuse_kernel_abi [hdr_zero] (Some (chan_with [[0, 0]])) []) \<noteq>
     Inr (- E2BIG)"
proof -
  have "virtio_send_msg fuse_kernel_abi [hdr_zero] (Some (chan_with [[0, 0]])) [] =
        (Inl (Assertion ''out->unique''), Some (chan_with [[0, 0]]), [])"
    using sizeof_hdr_zero unique_hdr_zero by (simp add: virtio_send_msg_def)
  moreover have "iov_length (in_sg (elem_with [[0, 0]])) < sizeof_fuse_out_header fuse_kernel_abi"
    by (simp add: elem_with_def fuse_kernel_abi_def)
  ultimately show ?thesis using sizeof_hdr_zero qe_chan_with by simp
qed

text \<open>
  C3, amended. For every reply whose first region holds the reply header and whose
  \<^verbatim>\<open>unique\<close> is not 0, and every channel with an element in progress:
  \<^verbatim>\<open>virtio_send_msg\<close> returns \<^verbatim>\<open>-E2BIG\<close> whenever the in-regions of the element hold
  fewer bytes than the reply header or fewer than the whole reply, and then nothing
  has been copied into the in-regions, pushed or notified: the element and the list
  of calls made are as they were.
\<close>

theorem virtio_send_msg_too_large:
  assumes "1 \<le> length iov" "sizeof_fuse_out_header a \<le> iov_len (iov ! 0)"
    "out_unique a (iov ! 0) \<noteq> 0" "qe (ch_qi c) = Some elem"
    "iov_length (in_sg elem) < sizeof_fuse_out_header a \<or>
     iov_length (in_sg elem) < iov_length iov"
  shows "virtio_send_msg a iov (Some c) tr = (Inr (- E2BIG), Some c, tr)"
  using assms by (auto simp: virtio_send_msg_def Let_def)

theorem virtio_send_msg_too_large_witness:
  "1 \<le> length [hdr_one, [5, 6]] \<and>
   sizeof_fuse_out_header fuse_kernel_abi \<le> iov_len ([hdr_one, [5, 6]] ! 0) \<and>
   out_unique fuse_kernel_abi ([hdr_one, [5, 6]] ! 0) \<noteq> 0 \<and>
   qe (ch_qi (chan_with [hdr_zero, [0]])) = Some (elem_with [hdr_zero, [0]]) \<and>
   iov_length (in_sg (elem_with [hdr_zero, [0]])) < iov_length [hdr_one, [5, 6]] \<and>
   virtio_send_msg fuse_kernel_abi [hdr_one, [5, 6]] (Some (chan_with [hdr_zero, [0]])) [] =
     (Inr (- E2BIG), Some (chan_with [hdr_zero, [0]]), [])"
proof -
  have h1: "1 \<le> length [hdr_one, [5, 6]]" by simp
  have h2: "sizeof_fuse_out_header fuse_kernel_abi \<le> iov_len ([hdr_one, [5, 6]] ! 0)"
    using sizeof_hdr_one by simp
  have h3: "out_unique fuse_kernel_abi ([hdr_one, [5, 6]] ! 0) \<noteq> 0"
    using unique_hdr_one by simp
  have h4: "qe (ch_qi (chan_with [hdr_zero, [0]])) = Some (elem_with [hdr_zero, [0]])"
    by (rule qe_chan_with)
  have h5: "iov_length (in_sg (elem_with [hdr_zero, [0]])) < iov_length [hdr_one, [5, 6]]"
    by (simp add: elem_with_def hdr_zero_def hdr_one_def)
  show ?thesis
    using h1 h2 h3 h4 h5 virtio_send_msg_too_large [OF h1 h2 h3 h4 disjI2 [OF h5]] by simp
qed

text \<open>
  C6. With \<^verbatim>\<open>unique\<close> not 0 and in-regions that hold at least the reply header and
  at least the whole reply, \<^verbatim>\<open>virtio_send_msg\<close> copies the reply into the in-regions
  of the element in progress (their first bytes become the bytes of the reply, the
  rest and the region lengths stay), calls \<^verbatim>\<open>vu_queue_push\<close> for this element with
  the length of the whole reply, then \<^verbatim>\<open>vu_queue_notify\<close>, and returns 0.
\<close>

theorem virtio_send_msg_success:
  assumes "1 \<le> length iov" "sizeof_fuse_out_header a \<le> iov_len (iov ! 0)"
    "out_unique a (iov ! 0) \<noteq> 0" "qe (ch_qi c) = Some elem"
    "sizeof_fuse_out_header a \<le> iov_length (in_sg elem)"
    "iov_length iov \<le> iov_length (in_sg elem)"
  shows "\<exists>in_sg'.
           virtio_send_msg a iov (Some c) tr =
             (Inr 0,
              Some (c\<lparr>ch_qi := (ch_qi c)\<lparr>qe := Some (elem\<lparr>in_sg := in_sg'\<rparr>)\<rparr>\<rparr>),
              tr @ [Ev_push (index elem) (iov_length iov), Ev_notify]) \<and>
           take (iov_length iov) (concat in_sg') = concat iov \<and>
           drop (iov_length iov) (concat in_sg') = drop (iov_length iov) (concat (in_sg elem)) \<and>
           map iov_len in_sg' = map iov_len (in_sg elem)"
proof -
  obtain r where r: "copy_iov iov (in_sg elem) (iov_length iov) = Inr r"
      "concat r = take (iov_length iov) (concat iov) @ drop (iov_length iov) (concat (in_sg elem))"
      "map iov_len r = map iov_len (in_sg elem)"
    using copy_iov_result [OF order_refl assms(6)] by blast
  have "virtio_send_msg a iov (Some c) tr =
             (Inr 0,
              Some (c\<lparr>ch_qi := (ch_qi c)\<lparr>qe := Some (elem\<lparr>in_sg := r\<rparr>)\<rparr>\<rparr>),
              tr @ [Ev_push (index elem) (iov_length iov), Ev_notify])"
    using assms r(1) by (simp add: virtio_send_msg_def Let_def)
  moreover have "take (iov_length iov) (concat r) = concat iov"
    using r(2) by (simp add: iov_length_concat)
  moreover have "drop (iov_length iov) (concat r) = drop (iov_length iov) (concat (in_sg elem))"
    using r(2) by (simp add: iov_length_concat)
  ultimately show ?thesis using r(3) by blast
qed

theorem virtio_send_msg_success_witness:
  "1 \<le> length [hdr_one, [5, 6]] \<and>
   sizeof_fuse_out_header fuse_kernel_abi \<le> iov_len ([hdr_one, [5, 6]] ! 0) \<and>
   out_unique fuse_kernel_abi ([hdr_one, [5, 6]] ! 0) \<noteq> 0 \<and>
   qe (ch_qi (chan_with [[0, 0, 0], hdr_zero])) = Some (elem_with [[0, 0, 0], hdr_zero]) \<and>
   sizeof_fuse_out_header fuse_kernel_abi \<le> iov_length (in_sg (elem_with [[0, 0, 0], hdr_zero])) \<and>
   iov_length [hdr_one, [5, 6]] \<le> iov_length (in_sg (elem_with [[0, 0, 0], hdr_zero])) \<and>
   (\<exists>in_sg'.
      virtio_send_msg fuse_kernel_abi [hdr_one, [5, 6]] (Some (chan_with [[0, 0, 0], hdr_zero])) [] =
        (Inr 0,
         Some ((chan_with [[0, 0, 0], hdr_zero])
                 \<lparr>ch_qi := (ch_qi (chan_with [[0, 0, 0], hdr_zero]))
                    \<lparr>qe := Some ((elem_with [[0, 0, 0], hdr_zero])\<lparr>in_sg := in_sg'\<rparr>)\<rparr>\<rparr>),
         [] @ [Ev_push (index (elem_with [[0, 0, 0], hdr_zero])) (iov_length [hdr_one, [5, 6]]),
               Ev_notify]) \<and>
      take (iov_length [hdr_one, [5, 6]]) (concat in_sg') = concat [hdr_one, [5, 6]])"
proof -
  have h1: "1 \<le> length [hdr_one, [5, 6]]" by simp
  have h2: "sizeof_fuse_out_header fuse_kernel_abi \<le> iov_len ([hdr_one, [5, 6]] ! 0)"
    using sizeof_hdr_one by simp
  have h3: "out_unique fuse_kernel_abi ([hdr_one, [5, 6]] ! 0) \<noteq> 0"
    using unique_hdr_one by simp
  have h4: "qe (ch_qi (chan_with [[0, 0, 0], hdr_zero])) = Some (elem_with [[0, 0, 0], hdr_zero])"
    by (rule qe_chan_with)
  have h5: "sizeof_fuse_out_header fuse_kernel_abi
              \<le> iov_length (in_sg (elem_with [[0, 0, 0], hdr_zero]))"
    by (simp add: elem_with_def hdr_zero_def fuse_kernel_abi_def)
  have h6: "iov_length [hdr_one, [5, 6]] \<le> iov_length (in_sg (elem_with [[0, 0, 0], hdr_zero]))"
    by (simp add: elem_with_def hdr_zero_def hdr_one_def)
  show ?thesis
    using h1 h2 h3 h4 h5 h6 virtio_send_msg_success [OF h1 h2 h3 h4 h5 h6, of "[]"] by blast
qed

subsection \<open>\<^verbatim>\<open>fv_queue_thread\<close>\<close>

lemma fbuf_alloc_cases:
  "fbuf_alloc a se lc w = (r, w1) \<Longrightarrow>
   w1 = (if fbuf_mem w = None
         then w\<lparr>fbuf_mem := malloc lc (bufsize se), trace := trace w @ [Ev_malloc (bufsize se)]\<rparr>
         else w)"
  by (auto simp: fbuf_alloc_def Let_def split: option.splits if_splits)

text \<open>
  C2. An element whose out-regions hold fewer bytes than a request header, or more
  than \<^verbatim>\<open>se->bufsize\<close>, stops the thread at a failed assertion. Up to there the only
  thing done is the allocation of the request buffer when this is the first element:
  \<^verbatim>\<open>copy_from_iov\<close> has not been called, the buffer holds none of the element's
  bytes, the session processor has not been called, and the loop over the popped
  elements ends with this fault.
\<close>

theorem fv_queue_elem_rejects:
  assumes "iov_length (out_sg elem) < sizeof_fuse_in_header a \<or>
           bufsize se < iov_length (out_sg elem)"
  shows "\<exists>f. fv_queue_elem a se lc elem w =
           (Some f,
            if fbuf_mem w = None
            then w\<lparr>fbuf_mem := malloc lc (bufsize se), trace := trace w @ [Ev_malloc (bufsize se)]\<rparr>
            else w) \<and>
           fv_queue_pop_loop a se lc (elem # elems) w = fv_queue_elem a se lc elem w"
proof -
  obtain r w1 where al: "fbuf_alloc a se lc w = (r, w1)" by (cases "fbuf_alloc a se lc w")
  note w1 = fbuf_alloc_cases [OF al]
  have "\<exists>f. fv_queue_elem a se lc elem w = (Some f, w1)"
    using assms al by (cases r) (auto simp: fv_queue_elem_def Let_def)
  then show ?thesis using w1 by auto
qed


theorem fv_queue_elem_rejects_witness:
  "bufsize se64 < iov_length (out_sg (req 7 65)) \<and>
   (\<exists>f. fv_queue_elem fuse_kernel_abi se64 libc_ok (req 7 65) (worker_init libc_ok None) =
      (Some f,
       if fbuf_mem (worker_init libc_ok None) = None
       then (worker_init libc_ok None)
              \<lparr>fbuf_mem := malloc libc_ok (bufsize se64),
               trace := trace (worker_init libc_ok None) @ [Ev_malloc (bufsize se64)]\<rparr>
       else worker_init libc_ok None))"
proof -
  have h: "bufsize se64 < iov_length (out_sg (req 7 65))"
    by (simp add: se64_def req_def iov_length_def)
  show ?thesis using h fv_queue_elem_rejects [OF disjI2 [OF h]] by blast
qed

lemma malloc_sizes_append [simp]:
  "malloc_sizes (xs @ ys) = malloc_sizes xs @ malloc_sizes ys"
  by (induction xs rule: malloc_sizes.induct) simp_all

lemma processed_append [simp]: "processed (xs @ ys) = processed xs + processed ys"
  by (induction xs rule: processed.induct) simp_all












subsection \<open>\<^verbatim>\<open>fv_queue_set_started\<close>\<close>

text \<open>
  C9. A call with \<^verbatim>\<open>qidx == 0\<close> returns at once, for both values of \<^verbatim>\<open>started\<close>:
  the table, its length, every record and the rest of the device state are as they
  were, and no thread has been created.
\<close>

theorem fv_queue_set_started_zero:
  "fv_queue_set_started sy 0 strt vud = Inr vud"
  by (simp add: fv_queue_set_started_def)

lemma grow_table_ok:
  assumes "length (qi vud) = nqueues vud" "nqueues vud \<le> i" "\<not> realloc_fails sy"
  shows "grow_table sy i vud =
         Inr (vud\<lparr>qi := qi vud @ replicate (i + 1 - nqueues vud) None, nqueues := i + 1\<rparr>)"
proof -
  have r: "realloc_table sy (qi vud) (i + 1) =
           qi vud @ replicate (i + 1 - nqueues vud) (realloc_junk sy)"
    using assms by (simp add: realloc_table_def)
  have c: "1 + size_t_sub i (nqueues vud) = i + 1 - nqueues vud"
    using assms(2) by (simp add: size_t_sub_def)
  have m: "memset_table (qi vud @ replicate (i + 1 - nqueues vud) (realloc_junk sy))
             (nqueues vud) (i + 1 - nqueues vud) =
           Inr (qi vud @ replicate (i + 1 - nqueues vud) None)"
    using assms(1,2) by (simp add: memset_table_def)
  show ?thesis unfolding grow_table_def r c m using assms(3) by simp
qed

lemma slack_then_entry:
  assumes "length xs \<le> i"
  shows "(xs @ replicate (i + 1 - length xs) a)[i := b] = xs @ replicate (i - length xs) a @ [b]"
proof -
  have "i + 1 - length xs = Suc (i - length xs)" using assms by arith
  then have "xs @ replicate (i + 1 - length xs) a = (xs @ replicate (i - length xs) a) @ [a]"
    by (simp add: replicate_append_same)
  moreover have "length (xs @ replicate (i - length xs) a) = i" using assms by simp
  ultimately show ?thesis by (metis append.assoc list_update_length)
qed

lemma fv_queue_set_started_grow_result:
  assumes "table_ok vud" "0 < qx" "nqueues vud \<le> nat qx"
    "\<not> realloc_fails sy" "\<not> calloc_fails sy" "pthread_create_result sy = Some t"
  shows "fv_queue_set_started sy qx True vud =
         Inr (vud\<lparr>nqueues := nat qx + 1,
                  qi := qi vud @ replicate (nat qx - nqueues vud) None @ [Some (length (qinfo vud))],
                  qinfo := qinfo vud @
                    [\<lparr>thread = t, qidx = qx, kick_fd = vq_kick_fd vud (nat qx), qe = None\<rparr>],
                  started := started vud @ [(t, length (qinfo vud))]\<rparr>)"
proof -
  let ?i = "nat qx"
  let ?n = "nqueues vud"
  let ?tab = "qi vud @ replicate (?i + 1 - ?n) None"
  let ?v1 = "vud\<lparr>qi := ?tab, nqueues := ?i + 1\<rparr>"
  let ?p = "length (qinfo vud)"
  let ?rec = "\<lparr>thread = 0, qidx = qx, kick_fd = 0, qe = None\<rparr>"
  let ?v2 = "?v1\<lparr>qi := ?tab[?i := Some ?p], qinfo := qinfo vud @ [?rec]\<rparr>"
  have len: "length (qi vud) = ?n" using assms(1) by (simp add: table_ok_def)
  have q0: "0 \<le> qx" "qx \<noteq> 0" using assms(2) by simp_all
  have tl: "length ?tab = ?i + 1" using len assms(3) by simp
  have ti: "?tab ! ?i = None" using len assms(3) by (simp add: nth_append)
  have ent: "table_entry ?v1 ?i = Inr None" using tl ti by (simp add: table_entry_def)
  have g: "grow_table sy ?i vud = Inr ?v1" using grow_table_ok [OF len assms(3,4)] .
  have qr: "queue_record sy qx ?v1 = Inr (?p, ?v2)"
    using assms(5) ent by (simp add: queue_record_def)
  have upd: "?tab[?i := Some ?p] = qi vud @ replicate (?i - ?n) None @ [Some ?p]"
    using slack_then_entry [of "qi vud" ?i] len assms(3) by simp
  have "fv_queue_set_started sy qx True vud =
        Inr (?v2\<lparr>qinfo := (qinfo ?v2)[?p := (qinfo ?v2 ! ?p)\<lparr>kick_fd := vq_kick_fd ?v2 ?i\<rparr>\<lparr>thread := t\<rparr>],
                 started := started ?v2 @ [(t, ?p)]\<rparr>)"
    using q0 assms(3,6) g qr by (simp add: fv_queue_set_started_def Let_def)
  then show ?thesis unfolding upd by simp
qed

lemma fv_queue_set_started_grow_fault:
  assumes "table_ok vud" "0 < qx" "nqueues vud \<le> nat qx"
    "realloc_fails sy \<or> calloc_fails sy \<or> pthread_create_result sy = None"
  shows "\<exists>f. fv_queue_set_started sy qx True vud = Inl f"
proof -
  let ?i = "nat qx"
  let ?n = "nqueues vud"
  let ?tab = "qi vud @ replicate (?i + 1 - ?n) None"
  let ?v1 = "vud\<lparr>qi := ?tab, nqueues := ?i + 1\<rparr>"
  have len: "length (qi vud) = ?n" using assms(1) by (simp add: table_ok_def)
  have q0: "0 \<le> qx" "qx \<noteq> 0" using assms(2) by simp_all
  have tl: "length ?tab = ?i + 1" using len assms(3) by simp
  have ti: "?tab ! ?i = None" using len assms(3) by (simp add: nth_append)
  have ent: "table_entry ?v1 ?i = Inr None" using tl ti by (simp add: table_entry_def)
  show ?thesis
  proof (cases "realloc_fails sy")
    case True
    then show ?thesis using q0 assms(3) by (simp add: fv_queue_set_started_def grow_table_def)
  next
    case rf: False
    have g: "grow_table sy ?i vud = Inr ?v1" using grow_table_ok [OF len assms(3) rf] .
    show ?thesis
    proof (cases "calloc_fails sy")
      case True
      then show ?thesis using q0 assms(3) g ent
        by (simp add: fv_queue_set_started_def queue_record_def)
    next
      case cf: False
      then have "pthread_create_result sy = None" using rf assms(4) by simp
      then show ?thesis using q0 assms(3) g cf ent
        by (simp add: fv_queue_set_started_def queue_record_def Let_def)
    qed
  qed
qed

text \<open>
  \<open>table_ok\<close> holds of the device before the first call and after every call that
  returns.
\<close>

lemma table_ok_start: "table_ok \<lparr>nqueues = 0, qi = [], qinfo = [], vq_kick_fd = k, started = []\<rparr>"
  by (simp add: table_ok_def)

lemma table_ok_queue_record:
  assumes "table_ok v" "queue_record sy qx v = Inr (p, v')"
  shows "table_ok v' \<and> p < length (qinfo v')"
proof -
  have pt: "\<And>j q. j < length (qi v) \<Longrightarrow> qi v ! j = Some q \<Longrightarrow> q < length (qinfo v)"
    using assms(1) by (auto simp: table_ok_def split: option.splits)
  show ?thesis
    using assms
    by (auto simp: queue_record_def table_entry_def table_ok_def nth_list_update nth_append
             split: if_splits sum.splits option.splits dest: pt)
qed

lemma table_ok_grow:
  assumes "table_ok v" "nqueues v \<le> i" "grow_table sy i v = Inr v'"
  shows "table_ok v'"
proof -
  have len: "length (qi v) = nqueues v" using assms(1) by (simp add: table_ok_def)
  have rf: "\<not> realloc_fails sy" using assms(3) by (auto simp: grow_table_def split: if_splits)
  have "v' = v\<lparr>qi := qi v @ replicate (i + 1 - nqueues v) None, nqueues := i + 1\<rparr>"
    using grow_table_ok [OF len assms(2) rf] assms(3) by simp
  then show ?thesis using assms(1,2)
    by (auto simp: table_ok_def nth_append split: option.splits)
qed

lemma table_ok_preserved:
  assumes "table_ok vud" "fv_queue_set_started sy qx strt vud = Inr vud'"
  shows "table_ok vud'"
proof (cases "qx \<le> 0")
  case True
  then show ?thesis using assms by (auto simp: fv_queue_set_started_def split: if_splits)
next
  case False
  then have q: "0 \<le> qx" "qx \<noteq> 0" by simp_all
  show ?thesis
  proof (cases strt)
    case False
    then show ?thesis using assms q
      by (auto simp: fv_queue_set_started_def table_ok_def
               split: if_splits sum.splits option.splits)
  next
    case True
    obtain v1 where g: "(if nat qx \<ge> nqueues vud then grow_table sy (nat qx) vud else Inr vud) = Inr v1"
      using assms(2) q True by (auto simp: fv_queue_set_started_def split: sum.splits)
    have ok1: "table_ok v1"
      using g assms(1) table_ok_grow [of vud "nat qx" sy v1] by (auto split: if_splits)
    obtain p v2 where r: "queue_record sy qx v1 = Inr (p, v2)"
      using assms(2) q True g by (auto simp: fv_queue_set_started_def split: sum.splits)
    note ok2 = table_ok_queue_record [OF ok1 r]
    obtain t where t: "pthread_create_result sy = Some t"
      using assms(2) q True g r by (auto simp: fv_queue_set_started_def Let_def split: option.splits)
    have "vud' = v2\<lparr>qinfo := (qinfo v2)[p := (qinfo v2 ! p)\<lparr>kick_fd := vq_kick_fd v2 (nat qx)\<rparr>\<lparr>thread := t\<rparr>],
                      started := started v2 @ [(t, p)]\<rparr>"
      using assms(2) q True g r t by (simp add: fv_queue_set_started_def Let_def)
    then show ?thesis using ok2 by (auto simp: table_ok_def split: option.splits)
  qed
qed

text \<open>
  C8, as stated, at a concrete input. On the device with an empty table, index 0 is
  beyond the bounds of the table, and the table is in order. The start of queue 0
  returns at \<^verbatim>\<open>if (qidx == 0)\<close>, before the test that grows the table: the table is
  still empty afterwards, no entry has been added and no record created.
\<close>

theorem fv_queue_set_started_grows_counterexample:
  "table_ok vud0 \<and> nqueues vud0 \<le> nat 0 \<and>
   fv_queue_set_started sys_ok 0 True vud0 = Inr vud0 \<and>
   nqueues vud0 = 0 \<and> qi vud0 = [] \<and> qinfo vud0 = [] \<and> started vud0 = []"
  by (simp add: fv_queue_set_started_def table_ok_def vud0_def)

text \<open>
  C8, amended. A start of queue \<open>i\<close> with \<open>i\<close> at least 1 and at or beyond the
  length of the table, on a table in order. When \<^verbatim>\<open>realloc\<close>, \<^verbatim>\<open>calloc\<close> or
  \<^verbatim>\<open>pthread_create\<close> fails the call stops at a fault. Otherwise it returns, and
  then: the table has \<open>i + 1\<close> entries; every entry that was there is the same
  pointer as before; every new entry below \<open>i\<close> is a null pointer; entry \<open>i\<close>
  points to a new record; every record that was there is unchanged in all its fields
  (thread handle and kick handle among them); the new record has the queue index, the
  kick handle of the device for this queue and the handle of the one thread created.
\<close>

theorem fv_queue_set_started_grows:
  assumes "table_ok vud" "0 < qx" "nqueues vud \<le> nat qx"
  shows "(realloc_fails sy \<or> calloc_fails sy \<or> pthread_create_result sy = None \<longrightarrow>
            (\<exists>f. fv_queue_set_started sy qx True vud = Inl f)) \<and>
         (\<not> realloc_fails sy \<and> \<not> calloc_fails sy \<and> pthread_create_result sy = Some t \<longrightarrow>
            (\<exists>vud'. fv_queue_set_started sy qx True vud = Inr vud' \<and>
                nqueues vud' = nat qx + 1 \<and> length (qi vud') = nat qx + 1 \<and>
                (\<forall>j < nqueues vud. qi vud' ! j = qi vud ! j) \<and>
                (\<forall>j. nqueues vud \<le> j \<and> j < nat qx \<longrightarrow> qi vud' ! j = None) \<and>
                qi vud' ! nat qx = Some (length (qinfo vud)) \<and>
                (\<forall>p < length (qinfo vud). qinfo vud' ! p = qinfo vud ! p) \<and>
                qinfo vud' ! length (qinfo vud) =
                  \<lparr>thread = t, qidx = qx, kick_fd = vq_kick_fd vud (nat qx), qe = None\<rparr> \<and>
                length (qinfo vud') = length (qinfo vud) + 1 \<and>
                started vud' = started vud @ [(t, length (qinfo vud))] \<and>
                vq_kick_fd vud' = vq_kick_fd vud \<and>
                table_ok vud'))"
proof (intro conjI impI)
  assume "realloc_fails sy \<or> calloc_fails sy \<or> pthread_create_result sy = None"
  then show "\<exists>f. fv_queue_set_started sy qx True vud = Inl f"
    using fv_queue_set_started_grow_fault [OF assms] by blast
next
  assume ok: "\<not> realloc_fails sy \<and> \<not> calloc_fails sy \<and> pthread_create_result sy = Some t"
  define vud' where "vud' = vud\<lparr>nqueues := nat qx + 1,
                  qi := qi vud @ replicate (nat qx - nqueues vud) None @ [Some (length (qinfo vud))],
                  qinfo := qinfo vud @
                    [\<lparr>thread = t, qidx = qx, kick_fd = vq_kick_fd vud (nat qx), qe = None\<rparr>],
                  started := started vud @ [(t, length (qinfo vud))]\<rparr>"
  have len: "length (qi vud) = nqueues vud" using assms(1) by (simp add: table_ok_def)
  have ptr: "\<And>j. j < nqueues vud \<Longrightarrow>
               (case qi vud ! j of None \<Rightarrow> True | Some p \<Rightarrow> p < length (qinfo vud))"
    using assms(1) by (simp add: table_ok_def)
  have run: "fv_queue_set_started sy qx True vud = Inr vud'"
    unfolding vud'_def using fv_queue_set_started_grow_result [OF assms] ok by blast
  have f1: "nqueues vud' = nat qx + 1" by (simp add: vud'_def)
  have f2: "length (qi vud') = nat qx + 1" using len assms(3) by (simp add: vud'_def)
  have f3: "\<forall>j < nqueues vud. qi vud' ! j = qi vud ! j"
    using len by (simp add: vud'_def nth_append)
  have f4: "\<forall>j. nqueues vud \<le> j \<and> j < nat qx \<longrightarrow> qi vud' ! j = None"
    using len by (auto simp: vud'_def nth_append)
  have f5: "qi vud' ! nat qx = Some (length (qinfo vud))"
    using len assms(3) by (simp add: vud'_def nth_append)
  have f6: "\<forall>p < length (qinfo vud). qinfo vud' ! p = qinfo vud ! p"
    by (simp add: vud'_def nth_append)
  have f7: "qinfo vud' ! length (qinfo vud) =
              \<lparr>thread = t, qidx = qx, kick_fd = vq_kick_fd vud (nat qx), qe = None\<rparr>"
    by (simp add: vud'_def)
  have f8: "length (qinfo vud') = length (qinfo vud) + 1" by (simp add: vud'_def)
  have f9: "started vud' = started vud @ [(t, length (qinfo vud))]" by (simp add: vud'_def)
  have f10: "vq_kick_fd vud' = vq_kick_fd vud" by (simp add: vud'_def)
  have f11: "table_ok vud'"
    unfolding table_ok_def
  proof (intro conjI allI impI)
    show "length (qi vud') = nqueues vud'" using f1 f2 by simp
  next
    fix j assume j: "j < length (qi vud')"
    show "case qi vud' ! j of None \<Rightarrow> True | Some p \<Rightarrow> p < length (qinfo vud')"
    proof (cases "j < nqueues vud")
      case True
      then have "qi vud' ! j = qi vud ! j" using f3 by blast
      then show ?thesis using ptr [OF True] f8 by (auto split: option.splits)
    next
      case False
      show ?thesis
      proof (cases "j = nat qx")
        case True
        then show ?thesis using f5 f8 by simp
      next
        case False
        then have "nqueues vud \<le> j \<and> j < nat qx" using \<open>\<not> j < nqueues vud\<close> j f2 by simp
        then show ?thesis using f4 by simp
      qed
    qed
  qed
  show "\<exists>vud'. fv_queue_set_started sy qx True vud = Inr vud' \<and>
                nqueues vud' = nat qx + 1 \<and> length (qi vud') = nat qx + 1 \<and>
                (\<forall>j < nqueues vud. qi vud' ! j = qi vud ! j) \<and>
                (\<forall>j. nqueues vud \<le> j \<and> j < nat qx \<longrightarrow> qi vud' ! j = None) \<and>
                qi vud' ! nat qx = Some (length (qinfo vud)) \<and>
                (\<forall>p < length (qinfo vud). qinfo vud' ! p = qinfo vud ! p) \<and>
                qinfo vud' ! length (qinfo vud) =
                  \<lparr>thread = t, qidx = qx, kick_fd = vq_kick_fd vud (nat qx), qe = None\<rparr> \<and>
                length (qinfo vud') = length (qinfo vud) + 1 \<and>
                started vud' = started vud @ [(t, length (qinfo vud))] \<and>
                vq_kick_fd vud' = vq_kick_fd vud \<and>
                table_ok vud'"
    using run f1 f2 f3 f4 f5 f6 f7 f8 f9 f10 f11 by blast
qed


lemma table_ok_vud1: "table_ok vud1"
  by (simp add: table_ok_def vud1_def less_Suc_eq numeral_2_eq_2)

theorem fv_queue_set_started_grows_witness:
  "table_ok vud1 \<and> (0 :: int) < 3 \<and> nqueues vud1 \<le> nat 3 \<and>
   \<not> realloc_fails sys_ok \<and> \<not> calloc_fails sys_ok \<and> pthread_create_result sys_ok = Some 42 \<and>
   (\<exists>vud'. fv_queue_set_started sys_ok 3 True vud1 = Inr vud' \<and>
      nqueues vud' = 4 \<and> qi vud' ! 1 = Some 0 \<and> qi vud' ! 2 = None \<and>
      qi vud' ! 3 = Some 1 \<and>
      qinfo vud' ! 0 = \<lparr>thread = 41, qidx = 1, kick_fd = 7, qe = None\<rparr> \<and>
      qinfo vud' ! 1 = \<lparr>thread = 42, qidx = 3, kick_fd = 13, qe = None\<rparr>)"
proof -
  have h1: "table_ok vud1" by (rule table_ok_vud1)
  have h2: "(0 :: int) < 3" by simp
  have h3: "nqueues vud1 \<le> nat 3" by (simp add: vud1_def)
  have h4: "\<not> realloc_fails sys_ok \<and> \<not> calloc_fails sys_ok \<and>
            pthread_create_result sys_ok = Some 42"
    by (simp add: sys_ok_def)
  have v: "nqueues vud1 = 2" "length (qinfo vud1) = 1" "qi vud1 ! 1 = Some 0"
    "qinfo vud1 ! 0 = \<lparr>thread = 41, qidx = 1, kick_fd = 7, qe = None\<rparr>"
    "vq_kick_fd vud1 (nat 3) = 13"
    by (simp_all add: vud1_def)
  from fv_queue_set_started_grows [OF h1 h2 h3, of sys_ok 42] h4
  obtain vud' where r: "fv_queue_set_started sys_ok 3 True vud1 = Inr vud'"
    "nqueues vud' = nat 3 + 1"
    "\<forall>j < nqueues vud1. qi vud' ! j = qi vud1 ! j"
    "\<forall>j. nqueues vud1 \<le> j \<and> j < nat 3 \<longrightarrow> qi vud' ! j = None"
    "qi vud' ! nat 3 = Some (length (qinfo vud1))"
    "\<forall>p < length (qinfo vud1). qinfo vud' ! p = qinfo vud1 ! p"
    "qinfo vud' ! length (qinfo vud1) =
       \<lparr>thread = 42, qidx = 3, kick_fd = vq_kick_fd vud1 (nat 3), qe = None\<rparr>"
    by blast
  have "nqueues vud' = 4" using r(2) by simp
  moreover have "qi vud' ! 1 = Some 0" using r(3) v by simp
  moreover have "qi vud' ! 2 = None" using r(4) v by simp
  moreover have "qi vud' ! 3 = Some 1" using r(5) v by simp
  moreover have "qinfo vud' ! 0 = \<lparr>thread = 41, qidx = 1, kick_fd = 7, qe = None\<rparr>"
    using r(6) v by simp
  moreover have "qinfo vud' ! 1 = \<lparr>thread = 42, qidx = 3, kick_fd = 13, qe = None\<rparr>"
    using r(7) v by simp
  ultimately show ?thesis using h1 h2 h3 h4 r(1) by blast
qed

end
